theory Spec2Isabelle
  imports Main "HOL-Library.Sublist" "HOL-Library.Char_ord" "HOL-Library.List_Lexorder"
begin

section \<open>Text primitives of the Python sources\<close>

text \<open>
  A text is a \<^typ>\<open>string\<close>; one \<^typ>\<open>char\<close> stands for one code point below 256.
  \<open>isspace\<close> is the whitespace test that both \<open>str.strip()\<close> and the regular
  expression class \<open>\s\<close> use on a Python \<open>str\<close>: the code points 9 to 13, 28 to 32,
  133 and 160.
\<close>

definition isspace :: "char \<Rightarrow> bool" where
  "isspace c = (of_char c \<in> {9, 10, 11, 12, 13, 28, 29, 30, 31, 32, 133, 160 :: nat})"

definition strip :: "string \<Rightarrow> string" where
  "strip s = rev (dropWhile isspace (rev (dropWhile isspace s)))"

definition lbrace :: char where
  "lbrace = CHR ''{''"

definition rbrace :: char where
  "rbrace = CHR ''}''"

text \<open>
  \<open>old in s\<close> on strings is \<^const>\<open>sublist\<close>. \<open>s.replace(old, new)\<close> rewrites the
  non-overlapping occurrences of \<open>old\<close> from left to right, and \<open>s.count(old)\<close>
  counts them; with an empty \<open>old\<close> Python matches before every character and at the end.
\<close>

function replace_str :: "string \<Rightarrow> string \<Rightarrow> string \<Rightarrow> string" where
  "replace_str old new [] = (if old = [] then new else [])"
| "replace_str old new (c # cs) =
     (if old = [] then new @ c # replace_str old new cs
      else if prefix old (c # cs) then new @ replace_str old new (drop (length old) (c # cs))
      else c # replace_str old new cs)"
  by pat_completeness auto
termination
  by (relation "measure (\<lambda>(old, new, s). length s)") auto

function count_str :: "string \<Rightarrow> string \<Rightarrow> nat" where
  "count_str old [] = (if old = [] then 1 else 0)"
| "count_str old (c # cs) =
     (if old = [] then Suc (count_str old cs)
      else if prefix old (c # cs) then Suc (count_str old (drop (length old) (c # cs)))
      else count_str old cs)"
  by pat_completeness auto
termination
  by (relation "measure (\<lambda>(old, s). length s)") auto

section \<open>The regular expressions\<close>

text \<open>
  The three servers use \<open>re.findall\<close> with two patterns built from single characters,
  character classes, greedy and lazy repetition of a class, and one capture group.
  \<open>rx\<close> is the backtracking matcher for such patterns: it tries the alternatives of a
  repetition in the engine's order (a greedy star the longest first, a lazy star the
  shortest first) and returns the first way that matches the whole pattern. The pair it
  threads holds the text remaining where the group opened and where it closed.
\<close>

datatype item =
    Chr "char \<Rightarrow> bool"
  | Star "char \<Rightarrow> bool"
  | LazyStar "char \<Rightarrow> bool"
  | GOpen
  | GClose

fun rx :: "item list \<Rightarrow> string \<Rightarrow> string \<times> string \<Rightarrow> (string \<times> string \<times> string) option" where
  "rx [] s (b, e) = Some (b, e, s)"
| "rx (GOpen # its) s (b, e) = rx its s (s, e)"
| "rx (GClose # its) s (b, e) = rx its s (b, s)"
| "rx (Chr p # its) [] g = None"
| "rx (Chr p # its) (x # xs) g = (if p x then rx its xs g else None)"
| "rx (Star p # its) [] g = rx its [] g"
| "rx (Star p # its) (x # xs) g =
     (if p x then (case rx (Star p # its) xs g of
                     Some r \<Rightarrow> Some r
                   | None \<Rightarrow> rx its (x # xs) g)
      else rx its (x # xs) g)"
| "rx (LazyStar p # its) [] g = rx its [] g"
| "rx (LazyStar p # its) (x # xs) g =
     (case rx its (x # xs) g of
        Some r \<Rightarrow> Some r
      | None \<Rightarrow> (if p x then rx (LazyStar p # its) xs g else None))"

text \<open>
  \<open>match_at pat s\<close> is one match attempt at the start of \<open>s\<close>: the captured group and
  the text after the match.
\<close>

definition match_at :: "item list \<Rightarrow> string \<Rightarrow> (string \<times> string) option" where
  "match_at pat s =
     (case rx pat s (s, s) of
        None \<Rightarrow> None
      | Some (b, e, rest) \<Rightarrow> Some (take (length b - length e) b, rest))"

text \<open>
  \<open>re.findall\<close> with one group: scan from the left; where the pattern matches, keep the
  group and go on after the match; elsewhere move one character on. An empty match is
  kept and the scan moves one character on.
\<close>

function findall :: "item list \<Rightarrow> string \<Rightarrow> string list" where
  "findall pat [] = (case match_at pat [] of None \<Rightarrow> [] | Some (cap, rest) \<Rightarrow> [cap])"
| "findall pat (x # xs) =
     (case match_at pat (x # xs) of
        None \<Rightarrow> findall pat xs
      | Some (cap, rest) \<Rightarrow>
          (if length rest < length (x # xs) then cap # findall pat rest
           else cap # findall pat xs))"
  by pat_completeness auto
termination
  by (relation "measure (\<lambda>(pat, s). length s)") auto

declare findall.simps [simp del]

definition lit :: "char \<Rightarrow> item" where
  "lit c = Chr (\<lambda>x. x = c)"

definition not_rbrace :: "char \<Rightarrow> bool" where
  "not_rbrace c = (c \<noteq> rbrace)"

definition no_brace :: "char \<Rightarrow> bool" where
  "no_brace c = (c \<noteq> lbrace \<and> c \<noteq> rbrace)"

text \<open>\<^verbatim>\<open>\{\{([^}]+)\}\}\<close> of server.py and server-gemini.py.\<close>

definition pat_old :: "item list" where
  "pat_old = [lit lbrace, lit lbrace, GOpen, Chr not_rbrace, Star not_rbrace, GClose,
              lit rbrace, lit rbrace]"

text \<open>\<^verbatim>\<open>\{\{\s*([^{}]+?)\s*\}\}\<close> of server-new.py.\<close>

definition pat_new :: "item list" where
  "pat_new = [lit lbrace, lit lbrace, Star isspace, GOpen, Chr no_brace, LazyStar no_brace,
              GClose, Star isspace, lit rbrace, lit rbrace]"

section \<open>Field maps and regions\<close>

text \<open>
  \<open>fields_data\<close> is the dict that \<open>json.loads\<close> returns: an association list in
  insertion order (the order \<open>.items()\<close> iterates in), read with \<^const>\<open>map_of\<close>. The
  sources only ever use \<open>str(value)\<close> of a value, so a value is carried as that text.

  A paragraph is the list of the texts of its runs. \<open>paragraph.text\<close> reads their
  concatenation; assigning to it removes the runs and adds one run holding the new
  text; assigning to \<open>run.text\<close> changes that run alone.
\<close>

type_synonym fieldmap = "(string \<times> string) list"

type_synonym para = "string list"

definition get_text :: "para \<Rightarrow> string" where
  "get_text p = concat p"

definition set_text :: "para \<Rightarrow> string \<Rightarrow> para" where
  "set_text p t = [t]"

definition token :: "string \<Rightarrow> string" where
  "token field = lbrace # lbrace # field @ [rbrace, rbrace]"

section \<open>server.py\<close>

text \<open>\<open>extract_fields_from_text\<close> adds the matches to the set \<open>fields\<close> of its caller.\<close>

definition extract_fields_from_text :: "string set \<Rightarrow> string \<Rightarrow> string set" where
  "extract_fields_from_text fields text = fields \<union> set (findall pat_old text)"

text \<open>
  \<open>replace_in_runs\<close>: the loop over \<open>fields_data.items()\<close> for one run, on the pair of
  \<open>new_text\<close> and \<open>count\<close>, then the loop over the runs of the paragraph.
\<close>

fun replace_items :: "fieldmap \<Rightarrow> string \<times> nat \<Rightarrow> string \<times> nat" where
  "replace_items [] (new_text, count) = (new_text, count)"
| "replace_items ((field, v) # items) (new_text, count) =
     (if sublist (token field) new_text
      then replace_items items
             (replace_str (token field) v new_text, count + count_str (token field) new_text)
      else replace_items items (new_text, count))"

fun runs_loop :: "fieldmap \<Rightarrow> string list \<Rightarrow> nat \<Rightarrow> string list \<times> nat" where
  "runs_loop fields_data [] count = ([], count)"
| "runs_loop fields_data (run # runs) count =
     (case replace_items fields_data (run, count) of
        (new_text, count') \<Rightarrow>
          (case runs_loop fields_data runs count' of
             (runs', n) \<Rightarrow> (new_text # runs', n)))"

definition replace_in_runs :: "fieldmap \<Rightarrow> para \<Rightarrow> para \<times> nat" where
  "replace_in_runs fields_data p = runs_loop fields_data p 0"

section \<open>server-new.py\<close>

definition extract_fields :: "string set \<Rightarrow> string \<Rightarrow> string set" where
  "extract_fields fields text = fields \<union> set (findall pat_new text)"

text \<open>
  \<open>replace_in_text\<close>: \<open>fields_in_text\<close> is computed once from the text it is given; the
  loop then rewrites \<open>new_text\<close> with \<open>str.replace\<close> for every field whose stripped name
  is a key, and counts one for each.
\<close>

definition original_pattern :: "string \<Rightarrow> string" where
  "original_pattern field =
     (if CHR '' '' \<in> set field then token ('' '' @ field @ '' '') else token field)"

fun fields_loop :: "fieldmap \<Rightarrow> string list \<Rightarrow> string \<times> nat \<Rightarrow> string \<times> nat" where
  "fields_loop fields_data [] (new_text, count) = (new_text, count)"
| "fields_loop fields_data (field # fs) (new_text, count) =
     (case map_of fields_data (strip field) of
        Some v \<Rightarrow>
          fields_loop fields_data fs
            (replace_str (original_pattern field) v new_text, count + 1)
      | None \<Rightarrow> fields_loop fields_data fs (new_text, count))"

definition replace_in_text :: "fieldmap \<Rightarrow> string \<Rightarrow> string \<times> nat" where
  "replace_in_text fields_data text = fields_loop fields_data (findall pat_new text) (text, 0)"

text \<open>The body of each of the loops of \<open>replace_fields_in_document\<close> over paragraphs.\<close>

definition replace_paragraph :: "fieldmap \<Rightarrow> para \<Rightarrow> para \<times> nat" where
  "replace_paragraph fields_data p =
     (case replace_in_text fields_data (get_text p) of
        (new_text, count) \<Rightarrow> if count > 0 then (set_text p new_text, count) else (p, 0))"

section \<open>Documents and the loops over them\<close>

text \<open>
  A loaded document as the servers read it: \<open>doc.paragraphs\<close>, \<open>doc.tables\<close> (a table is
  its rows, a row its cells, a cell its paragraphs) and \<open>doc.sections\<close>. A header or
  footer of a section is the list of its paragraphs, or \<open>None\<close> where the test
  \<open>if section.header:\<close> fails. Every paragraph is a value of its own: a cell that
  the library lists once for each grid position of a merged cell, and a header linked
  to the one of the previous section, are objects reached twice, which this record
  does not express.
\<close>

record doc_section =
  header :: "para list option"
  even_page_header :: "para list option"
  first_page_header :: "para list option"
  footer :: "para list option"
  even_page_footer :: "para list option"
  first_page_footer :: "para list option"

record docx =
  paragraphs :: "para list"
  tables :: "para list list list list"
  sections :: "doc_section list"








text \<open>
  The loops of \<open>replace_fields_in_document\<close> change the paragraphs in place and add to
  \<open>replacements_count\<close>: \<open>for_each\<close> runs a statement over a list, threading the state and
  collecting the changed elements.
\<close>

fun for_each :: "('a \<Rightarrow> 's \<Rightarrow> 'a \<times> 's) \<Rightarrow> 'a list \<Rightarrow> 's \<Rightarrow> 'a list \<times> 's" where
  "for_each f [] s = ([], s)"
| "for_each f (x # xs) s =
     (case f x s of
        (y, s1) \<Rightarrow> (case for_each f xs s1 of (ys, s2) \<Rightarrow> (y # ys, s2)))"

definition each_part :: "(para \<Rightarrow> 's \<Rightarrow> para \<times> 's) \<Rightarrow> para list option \<Rightarrow> 's
    \<Rightarrow> para list option \<times> 's" where
  "each_part f part s =
     (case part of
        None \<Rightarrow> (None, s)
      | Some ps \<Rightarrow> (case for_each f ps s of (ps', s') \<Rightarrow> (Some ps', s')))"

definition each_section :: "(para \<Rightarrow> 's \<Rightarrow> para \<times> 's) \<Rightarrow> doc_section \<Rightarrow> 's
    \<Rightarrow> doc_section \<times> 's" where
  "each_section f sec s =
     (case each_part f (header sec) s of
        (h, s1) \<Rightarrow>
          (case each_part f (footer sec) s1 of
             (g, s2) \<Rightarrow> (sec\<lparr>header := h, footer := g\<rparr>, s2)))"

text \<open>server.py and server-new.py: paragraphs, tables, then header and footer.\<close>

definition replace_loops :: "(para \<Rightarrow> 's \<Rightarrow> para \<times> 's) \<Rightarrow> docx \<Rightarrow> 's \<Rightarrow> docx \<times> 's" where
  "replace_loops f doc s =
     (case for_each f (paragraphs doc) s of
        (ps, s1) \<Rightarrow>
          (case for_each (for_each (for_each (for_each f))) (tables doc) s1 of
             (ts, s2) \<Rightarrow>
               (case for_each (each_section f) (sections doc) s2 of
                  (ss, s3) \<Rightarrow> (\<lparr>paragraphs = ps, tables = ts, sections = ss\<rparr>, s3))))"

definition replace_fields_in_document :: "fieldmap \<Rightarrow> docx \<Rightarrow> docx \<times> nat" where
  "replace_fields_in_document fields_data doc =
     replace_loops
       (\<lambda>p replacements_count.
          case replace_in_runs fields_data p of
            (p', count) \<Rightarrow> (p', replacements_count + count))
       doc 0"

definition replace_fields_in_document_new :: "fieldmap \<Rightarrow> docx \<Rightarrow> docx \<times> nat" where
  "replace_fields_in_document_new fields_data doc =
     replace_loops
       (\<lambda>p replacements_count.
          case replace_paragraph fields_data p of
            (p', count) \<Rightarrow> (p', replacements_count + count))
       doc 0"

section \<open>server-gemini.py\<close>

text \<open>
  \<open>_replace_in_paragraph_or_cell\<close> searches the escaped literal \<open>{{field}}\<close> with
  \<open>re.finditer\<close> and rewrites with \<open>re.sub\<close>: the occurrences are the ones that
  \<open>str.count\<close> and \<open>str.replace\<close> find. \<open>re.sub\<close> reads the value as a
  template; a value without a backslash stands for itself. \<open>None\<close> marks a value with a backslash:
  \<open>re.sub\<close> raises \<open>re.error\<close> on a bad escape, and the expansion of the other
  escapes is not followed here.
\<close>

definition re_template :: "string \<Rightarrow> string option" where
  "re_template v = (if CHR 0x5C \<in> set v then None else Some v)"

fun gemini_items :: "fieldmap \<Rightarrow> string \<times> nat \<Rightarrow> (string \<times> nat) option" where
  "gemini_items [] (new_text, n) = Some (new_text, n)"
| "gemini_items ((field, v) # items) (new_text, n) =
     (if count_str (token field) new_text > 0
      then (case re_template v of
              None \<Rightarrow> None
            | Some r \<Rightarrow>
                gemini_items items
                  (replace_str (token field) r new_text, n + count_str (token field) new_text))
      else gemini_items items (new_text, n))"

definition replace_in_paragraph_or_cell :: "fieldmap \<Rightarrow> para \<Rightarrow> nat \<Rightarrow> (para \<times> nat) option" where
  "replace_in_paragraph_or_cell data_map p replacements_count =
     (case gemini_items data_map (get_text p, 0) of
        None \<Rightarrow> None
      | Some (new_text, n) \<Rightarrow>
          if n > 0 then Some (set_text p new_text, replacements_count + n)
          else Some (p, replacements_count))"






section \<open>The order of the regions\<close>

text \<open>
  The regions of a document as one list, in the order in which the loops reach them:
  for server.py and server-new.py, and for server-gemini.py.
\<close>

definition part_regions :: "para list option \<Rightarrow> para list" where
  "part_regions part = (case part of None \<Rightarrow> [] | Some ps \<Rightarrow> ps)"

definition table_regions :: "para list list list list \<Rightarrow> para list" where
  "table_regions ts = concat (concat (concat ts))"

definition enumerate_regions :: "docx \<Rightarrow> para list" where
  "enumerate_regions doc =
     paragraphs doc @ table_regions (tables doc) @
     concat (map (\<lambda>sec. part_regions (header sec) @ part_regions (footer sec)) (sections doc))"





section \<open>Closed forms used in the statements\<close>

text \<open>
  \<open>rstrip\<close> removes trailing whitespace. \<open>capture_new\<close> is what the group of
  \<open>pat_new\<close> holds for a given text between the braces: the stripped text, except that
  a text of whitespace only leaves its last character in the group.
\<close>

definition rstrip :: "string \<Rightarrow> string" where
  "rstrip s = rev (dropWhile isspace (rev s))"

definition capture_new :: "string \<Rightarrow> string" where
  "capture_new inner = (if \<forall>c \<in> set inner. isspace c then [last inner] else strip inner)"

section \<open>Substitution at concrete inputs\<close>

text \<open>
  C1. A token split over two runs: the flattened text of the paragraph is
  \<open>{{name}}\<close> and \<open>name\<close> is a key, yet \<open>replace_in_runs\<close> of server.py, which looks
  at one run at a time, leaves both runs as they were and counts nothing. The loop
  bodies of server-new.py and of server-gemini.py, which work on \<open>paragraph.text\<close>,
  replace the token.
\<close>

theorem replace_in_runs_split_token:
  "get_text [''{{na'', ''me}}''] = ''{{name}}'' \<and>
   replace_in_runs [(''name'', ''X'')] [''{{na'', ''me}}''] = ([''{{na'', ''me}}''], 0) \<and>
   replace_paragraph [(''name'', ''X'')] [''{{na'', ''me}}''] = ([''X''], 1) \<and>
   replace_in_paragraph_or_cell [(''name'', ''X'')] [''{{na'', ''me}}''] 0 = Some ([''X''], 1)"
  by code_simp

text \<open>
  C3. A token with interior padding whose stripped name is a key: \<open>replace_in_text\<close>
  of server-new.py rebuilds the token from the captured name, which the pattern has
  already stripped, so it searches for \<open>{{a}}\<close>, replaces nothing and still counts one.
  The example of the claim itself evaluates as the claim says.
\<close>

theorem replace_in_text_padded_token:
  "replace_in_text [(''a'', ''1'')] ''{{ a }}'' = (''{{ a }}'', 1) \<and>
   replace_in_text [(''a'', ''1''), (''b'', ''2'')] ''{{a}} and {{a}} and {{b}}''
     = (''1 and 1 and 2'', 3)"
  by code_simp

text \<open>
  C4. A value that is itself a token: both servers rewrite the text once per field
  with \<open>str.replace\<close>, on the text the earlier replacements produced. In
  \<open>replace_in_text\<close> of server-new.py the value put in for \<open>a\<close> is replaced again
  when \<open>b\<close> is a field of the text; in \<open>replace_in_runs\<close> of server.py the text
  \<open>{{a}}\<close> alone becomes \<open>X\<close> with count 2 once the field map also holds \<open>b\<close>.
  On the text \<open>{{a}}\<close> alone \<open>replace_in_text\<close> gives \<open>{{b}}\<close> with count 1.
\<close>

theorem replace_rescans_values:
  "replace_in_text [(''a'', ''{{b}}''), (''b'', ''X'')] ''{{a}} {{b}}'' = (''X X'', 2) \<and>
   replace_in_runs [(''a'', ''{{b}}''), (''b'', ''X'')] [''{{a}}''] = ([''X''], 2) \<and>
   replace_in_text [(''a'', ''{{b}}''), (''b'', ''X'')] ''{{a}}'' = (''{{b}}'', 1)"
  by code_simp

section \<open>Texts without tokens\<close>

lemma rx_new_needs_open: "\<not> prefix ''{{'' s \<Longrightarrow> rx pat_new s g = None"
proof (cases s)
  case Nil
  then show ?thesis by (simp add: pat_new_def lit_def)
next
  case (Cons x xs)
  assume np: "\<not> prefix ''{{'' s"
  show ?thesis
  proof (cases xs)
    case Nil
    with Cons show ?thesis by (simp add: pat_new_def lit_def)
  next
    case (Cons y ys)
    with \<open>s = x # xs\<close> np have "\<not> (x = lbrace \<and> y = lbrace)" by (auto simp add: lbrace_def)
    with Cons \<open>s = x # xs\<close> show ?thesis by (auto simp add: pat_new_def lit_def)
  qed
qed

lemma match_at_new_needs_open: "\<not> prefix ''{{'' s \<Longrightarrow> match_at pat_new s = None"
  by (simp add: match_at_def rx_new_needs_open)

lemma findall_new_no_open: "\<not> sublist ''{{'' t \<Longrightarrow> findall pat_new t = []"
proof (induction t)
  case Nil
  then show ?case by (simp add: findall.simps match_at_new_needs_open)
next
  case (Cons x xs)
  then have "\<not> prefix ''{{'' (x # xs)" and "\<not> sublist ''{{'' xs"
    by (auto simp: sublist_Cons_right)
  with Cons.IH show ?case by (simp add: findall.simps match_at_new_needs_open)
qed

lemma fields_loop_no_key:
  "\<forall>f \<in> set fs. map_of m (strip f) = None \<Longrightarrow> fields_loop m fs (t, n) = (t, n)"
  by (induction fs) auto

lemma fields_loop_map_of:
  "map_of m1 = map_of m2 \<Longrightarrow> fields_loop m1 fs acc = fields_loop m2 fs acc"
proof (induction fs arbitrary: acc)
  case Nil
  then show ?case by (cases acc) simp
next
  case (Cons f fs)
  then show ?case by (cases acc) (simp split: option.splits)
qed

lemma sublist_token_open: "sublist (token k) r \<Longrightarrow> sublist ''{{'' r"
proof -
  assume a: "sublist (token k) r"
  have "token k = ''{{'' @ (k @ ''}}'')" by (simp add: token_def lbrace_def rbrace_def)
  then have "sublist ''{{'' (token k)" by (metis sublist_append_rightI)
  with a show ?thesis by (rule sublist_order.order_trans[rotated])
qed

lemma replace_items_no_open:
  "\<not> sublist ''{{'' r \<Longrightarrow> replace_items m (r, n) = (r, n)"
  by (induction m) (auto dest: sublist_token_open)

lemma runs_loop_no_open:
  "\<forall>r \<in> set p. \<not> sublist ''{{'' r \<Longrightarrow> runs_loop m p n = (p, n)"
  by (induction p arbitrary: n) (auto simp: replace_items_no_open)



section \<open>What the pattern of server-new.py matches\<close>


lemma isspace_no_brace: "isspace c \<Longrightarrow> no_brace c"
  by (auto simp: isspace_def no_brace_def lbrace_def rbrace_def)

lemma isspace_not_rbrace: "isspace c \<Longrightarrow> c \<noteq> rbrace"
  by (auto simp: isspace_def rbrace_def)

lemma rstrip_Nil [simp]: "rstrip [] = []"
  by (simp add: rstrip_def)

lemma rstrip_all_space: "\<forall>c \<in> set u. isspace c \<Longrightarrow> rstrip u = []"
  by (simp add: rstrip_def)

lemma rstrip_Cons:
  "rstrip (x # u) = (if isspace x \<and> (\<forall>c \<in> set u. isspace c) then [] else x # rstrip u)"
proof (cases "\<forall>c \<in> set u. isspace c")
  case True
  then have eq: "dropWhile isspace (rev u @ [x]) = dropWhile isspace [x]"
    by (intro dropWhile_append2) auto
  from True show ?thesis by (simp add: rstrip_def eq)
next
  case False
  then have eq: "dropWhile isspace (rev u @ [x]) = dropWhile isspace (rev u) @ [x]"
    by (auto simp: dropWhile_append1)
  from False show ?thesis by (simp add: rstrip_def eq)
qed

lemma length_rstrip: "length (rstrip u) \<le> length u"
  by (simp add: rstrip_def length_dropWhile_le[of isspace "rev u", simplified])

lemma take_rstrip: "take (length (rstrip u)) (u @ r) = rstrip u"
proof (induction u)
  case Nil
  then show ?case by simp
next
  case (Cons x u)
  then show ?case by (simp add: rstrip_Cons)
qed

lemma strip_rstrip: "strip s = rstrip (dropWhile isspace s)"
  by (simp add: strip_def rstrip_def)

lemma rx_braces:
  "rx [lit rbrace, lit rbrace] s (b, e) =
     (if prefix [rbrace, rbrace] s then Some (b, e, drop 2 s) else None)"
  by (cases s; cases "tl s") (auto simp: lit_def)

lemma rx_ws_braces:
  "after = [] \<or> \<not> isspace (hd after) \<Longrightarrow> \<forall>c \<in> set w. isspace c \<Longrightarrow>
   rx [Star isspace, lit rbrace, lit rbrace] (w @ after) (b, e) =
     (if prefix [rbrace, rbrace] after then Some (b, e, drop 2 after) else None)"
proof (induction w)
  case Nil
  then show ?case
    by (cases after) (auto simp: rx_braces)
next
  case (Cons x w)
  then have "x \<noteq> rbrace" by (simp add: isspace_not_rbrace)
  then have "rx [lit rbrace, lit rbrace] (x # w @ after) (b, e) = None"
    by (simp add: lit_def)
  with Cons show ?case by simp
qed

lemma rx_close:
  assumes "after = [] \<or> \<not> no_brace (hd after)" and "\<forall>c \<in> set w. isspace c"
  shows "rx [GClose, Star isspace, lit rbrace, lit rbrace] (w @ after) (b, e) =
     (if prefix [rbrace, rbrace] after then Some (b, w @ after, drop 2 after) else None)"
proof -
  from assms(1) have "after = [] \<or> \<not> isspace (hd after)"
    using isspace_no_brace by blast
  from rx_ws_braces [OF this assms(2)] show ?thesis by simp
qed

lemma rx_close_fail:
  assumes "\<forall>c \<in> set u. no_brace c" and "\<not> (\<forall>c \<in> set u. isspace c)"
  shows "rx [GClose, Star isspace, lit rbrace, lit rbrace] (u @ after) (b, e) = None"
proof -
  define w where "w = takeWhile isspace u"
  define v where "v = dropWhile isspace u"
  have u: "u = w @ v" by (simp add: w_def v_def)
  from assms(2) have "v \<noteq> []" by (auto simp: v_def)
  then obtain y v' where v: "v = y # v'" by (cases v) auto
  have "\<not> isspace y" using hd_dropWhile [of isspace u] \<open>v \<noteq> []\<close> v by (simp add: v_def)
  have "y \<in> set u" using u v by simp
  with assms(1) have "no_brace y" by blast
  then have "y \<noteq> rbrace" by (simp add: no_brace_def)
  have w: "\<forall>c \<in> set w. isspace c" by (auto simp: w_def dest: set_takeWhileD)
  have "rx [Star isspace, lit rbrace, lit rbrace] (w @ (v @ after)) (b, u @ after) =
     (if prefix [rbrace, rbrace] (v @ after) then Some (b, u @ after, drop 2 (v @ after)) else None)"
    by (rule rx_ws_braces) (use v \<open>\<not> isspace y\<close> w in auto)
  moreover have "\<not> prefix [rbrace, rbrace] (v @ after)" using v \<open>y \<noteq> rbrace\<close> by simp
  ultimately show ?thesis using u by simp
qed

lemma rx_lazy:
  assumes "\<forall>c \<in> set u. no_brace c" and "after = [] \<or> \<not> no_brace (hd after)"
  shows "rx [LazyStar no_brace, GClose, Star isspace, lit rbrace, lit rbrace] (u @ after) (b, e) =
     (if prefix [rbrace, rbrace] after
      then Some (b, drop (length (rstrip u)) (u @ after), drop 2 after) else None)"
  using assms(1)
proof (induction u)
  case Nil
  show ?case
  proof (cases after)
    case Nil
    then show ?thesis by (simp add: lit_def)
  next
    case (Cons x xs)
    with assms(2) have "\<not> no_brace x" by simp
    moreover have "rx [GClose, Star isspace, lit rbrace, lit rbrace] ([] @ after) (b, e) =
       (if prefix [rbrace, rbrace] after then Some (b, [] @ after, drop 2 after) else None)"
      by (rule rx_close) (use assms(2) in auto)
    ultimately show ?thesis using Cons by (simp del: rx.simps(3))
  qed
next
  case (Cons x u)
  then have nb: "no_brace x" and u: "\<forall>c \<in> set u. no_brace c" by auto
  note IH = Cons.IH [OF u]
  show ?case
  proof (cases "\<forall>c \<in> set (x # u). isspace c")
    case True
    have "rx [GClose, Star isspace, lit rbrace, lit rbrace] ((x # u) @ after) (b, e) =
       (if prefix [rbrace, rbrace] after then Some (b, (x # u) @ after, drop 2 after) else None)"
      by (rule rx_close) (use assms(2) True in auto)
    moreover have "rstrip (x # u) = []" using True by (rule rstrip_all_space)
    ultimately show ?thesis using IH nb by (simp del: rx.simps(3))
  next
    case False
    have "rx [GClose, Star isspace, lit rbrace, lit rbrace] ((x # u) @ after) (b, e) = None"
      by (rule rx_close_fail) (use Cons.prems False in auto)
    moreover have "rstrip (x # u) = x # rstrip u" using False by (auto simp: rstrip_Cons)
    ultimately show ?thesis using IH nb by (simp del: rx.simps(3))
  qed
qed

lemma rx_group:
  assumes "\<forall>c \<in> set (x # u). no_brace c" and "after = [] \<or> \<not> no_brace (hd after)"
  shows "rx [GOpen, Chr no_brace, LazyStar no_brace, GClose, Star isspace, lit rbrace, lit rbrace]
           (x # u @ after) (b, e) =
     (if prefix [rbrace, rbrace] after
      then Some (x # u @ after, drop (length (rstrip u)) (u @ after), drop 2 after) else None)"
proof -
  from assms(1) have "no_brace x" and u: "\<forall>c \<in> set u. no_brace c" by auto
  then show ?thesis using rx_lazy [OF u assms(2)] by simp
qed

lemma rx_group_stop:
  assumes "after = [] \<or> \<not> no_brace (hd after)"
  shows "rx [GOpen, Chr no_brace, LazyStar no_brace, GClose, Star isspace, lit rbrace, lit rbrace]
           after (b, e) = None"
  using assms by (cases after) auto

lemma rx_inner_fail:
  assumes "\<forall>c \<in> set u. no_brace c" and "after = [] \<or> \<not> no_brace (hd after)"
    and "\<not> prefix [rbrace, rbrace] after"
  shows "rx [Star isspace, GOpen, Chr no_brace, LazyStar no_brace, GClose, Star isspace,
             lit rbrace, lit rbrace] (u @ after) (b, e) = None"
  using assms(1)
proof (induction u)
  case Nil
  have "\<not> isspace (hd after) \<or> after = []" using assms(2) isspace_no_brace by blast
  then show ?case using rx_group_stop [OF assms(2), of b e]
    by (cases after) (auto simp del: rx.simps(2))
next
  case (Cons x u)
  then have IH: "rx [Star isspace, GOpen, Chr no_brace, LazyStar no_brace, GClose, Star isspace,
             lit rbrace, lit rbrace] (u @ after) (b, e) = None" by simp
  have "rx [GOpen, Chr no_brace, LazyStar no_brace, GClose, Star isspace, lit rbrace, lit rbrace]
           (x # u @ after) (b, e) = None"
    using rx_group [OF Cons.prems assms(2)] assms(3) by simp
  with IH show ?case by (simp del: rx.simps(2))
qed

lemma rx_inner_name:
  assumes "\<forall>c \<in> set w. isspace c" and "\<not> isspace y" and "\<forall>c \<in> set (y # v). no_brace c"
    and "after = [] \<or> \<not> no_brace (hd after)" and "prefix [rbrace, rbrace] after"
  shows "rx [Star isspace, GOpen, Chr no_brace, LazyStar no_brace, GClose, Star isspace,
             lit rbrace, lit rbrace] (w @ y # v @ after) (b, e) =
         Some (y # v @ after, drop (length (rstrip v)) (v @ after), drop 2 after)"
  using assms(1)
proof (induction w)
  case Nil
  show ?case using rx_group [OF assms(3,4), of b e] assms(2,5)
    by (simp del: rx.simps(2))
next
  case (Cons x w)
  then show ?case by (simp del: rx.simps(2))
qed

lemma rx_inner_blank:
  assumes "\<forall>c \<in> set w. isspace c" and "isspace z"
    and "after = [] \<or> \<not> no_brace (hd after)" and "prefix [rbrace, rbrace] after"
  shows "rx [Star isspace, GOpen, Chr no_brace, LazyStar no_brace, GClose, Star isspace,
             lit rbrace, lit rbrace] (w @ z # after) (b, e) =
         Some (z # after, after, drop 2 after)"
  using assms(1)
proof (induction w)
  case Nil
  have "rx [GOpen, Chr no_brace, LazyStar no_brace, GClose, Star isspace, lit rbrace, lit rbrace]
           (z # [] @ after) (b, e) = Some (z # [] @ after, drop (length (rstrip [])) ([] @ after), drop 2 after)"
    using rx_group [of z "[]" after b e] assms(2,3,4) isspace_no_brace by simp
  moreover have "rx [Star isspace, GOpen, Chr no_brace, LazyStar no_brace, GClose, Star isspace,
             lit rbrace, lit rbrace] after (b, e) = None"
    using rx_inner_fail [of "[]" after b e] rx_group_stop [OF assms(3), of b e] assms(3,4)
      isspace_no_brace
    by (cases after) (auto simp del: rx.simps(2))
  ultimately show ?case using assms(2) by (simp del: rx.simps(2))
next
  case (Cons x w)
  then show ?case by (simp del: rx.simps(2))
qed


lemma rx_inner_stop:
  assumes "after = [] \<or> \<not> no_brace (hd after)"
  shows "rx [Star isspace, GOpen, Chr no_brace, LazyStar no_brace, GClose, Star isspace,
             lit rbrace, lit rbrace] after (b, e) = None"
proof -
  have "\<not> isspace (hd after) \<or> after = []" using assms isspace_no_brace by blast
  then show ?thesis using rx_group_stop [OF assms, of b e]
    by (cases after) (auto simp del: rx.simps(2))
qed

lemma rx_pat_new:
  "rx pat_new (x # y # r) g =
     (if x = lbrace \<and> y = lbrace
      then rx [Star isspace, GOpen, Chr no_brace, LazyStar no_brace, GClose, Star isspace,
               lit rbrace, lit rbrace] r g
      else None)"
  by (simp add: pat_new_def lit_def)

lemma match_at_new_token:
  assumes "inner \<noteq> []" and "\<forall>c \<in> set inner. no_brace c"
  shows "match_at pat_new (lbrace # lbrace # inner @ rbrace # rbrace # rest)
           = Some (capture_new inner, rest)"
proof -
  let ?after = "rbrace # rbrace # rest"
  let ?s = "lbrace # lbrace # inner @ ?after"
  have stop: "?after = [] \<or> \<not> no_brace (hd ?after)" by (simp add: no_brace_def)
  have pre: "prefix [rbrace, rbrace] ?after" by simp
  show ?thesis
  proof (cases "\<forall>c \<in> set inner. isspace c")
    case True
    from assms(1) obtain w z where inner: "inner = w @ [z]"
      by (cases inner rule: rev_cases) auto
    with True have w: "\<forall>c \<in> set w. isspace c" and z: "isspace z" by auto
    have "rx pat_new ?s (?s, ?s) = Some (z # ?after, ?after, drop 2 ?after)"
      using rx_inner_blank [OF w z stop pre, of ?s ?s] inner by (simp add: rx_pat_new)
    then show ?thesis using True inner by (simp add: match_at_def capture_new_def)
  next
    case False
    define w where "w = takeWhile isspace inner"
    define u where "u = dropWhile isspace inner"
    have inner: "inner = w @ u" by (simp add: w_def u_def)
    from False have "u \<noteq> []" by (auto simp: u_def)
    then obtain y v where u: "u = y # v" by (cases u) auto
    have y: "\<not> isspace y" using hd_dropWhile [of isspace inner] \<open>u \<noteq> []\<close> u by (simp add: u_def)
    have w: "\<forall>c \<in> set w. isspace c" by (auto simp: w_def dest: set_takeWhileD)
    have nb: "\<forall>c \<in> set (y # v). no_brace c" using assms(2) inner u by auto
    define b where "b = y # v @ ?after"
    define e where "e = drop (length (rstrip v)) (v @ ?after)"
    have rx: "rx pat_new ?s (?s, ?s) = Some (b, e, rest)"
      using rx_inner_name [OF w y nb stop pre, of ?s ?s] inner u
      by (simp add: rx_pat_new b_def e_def)
    have len: "length b - length e = Suc (length (rstrip v))"
      unfolding b_def e_def using length_rstrip [of v] by simp
    have "take (Suc (length (rstrip v))) b = y # rstrip v"
      unfolding b_def using take_rstrip [of v ?after] by simp
    also have "\<dots> = rstrip (y # v)" using y by (simp add: rstrip_Cons)
    also have "\<dots> = strip inner" using u by (simp add: strip_rstrip u_def)
    finally have "take (length b - length e) b = strip inner" by (simp only: len)
    moreover have "capture_new inner = strip inner" using False by (auto simp: capture_new_def)
    ultimately show ?thesis
      by (simp add: match_at_def rx)
  qed
qed

lemma match_at_new_eq:
  "match_at pat_new s =
     (case s of
        x # y # r \<Rightarrow>
          if x = lbrace \<and> y = lbrace \<and> takeWhile no_brace r \<noteq> [] \<and>
             prefix [rbrace, rbrace] (dropWhile no_brace r)
          then Some (capture_new (takeWhile no_brace r), drop 2 (dropWhile no_brace r))
          else None
      | _ \<Rightarrow> None)"
proof (cases s)
  case Nil
  then show ?thesis by (simp add: match_at_def pat_new_def lit_def)
next
  case (Cons x s')
  show ?thesis
  proof (cases s')
    case Nil
    with Cons show ?thesis by (simp add: match_at_def pat_new_def lit_def)
  next
    case (Cons y r)
    note s = \<open>s = x # s'\<close> Cons
    define inner where "inner = takeWhile no_brace r"
    define after where "after = dropWhile no_brace r"
    have r: "r = inner @ after" by (simp add: inner_def after_def)
    have nb: "\<forall>c \<in> set inner. no_brace c" by (auto simp: inner_def dest: set_takeWhileD)
    have stop: "after = [] \<or> \<not> no_brace (hd after)"
      using hd_dropWhile [of no_brace r] by (auto simp: after_def)
    show ?thesis
    proof (cases "x = lbrace \<and> y = lbrace")
      case False
      then show ?thesis using s by (auto simp: match_at_def rx_pat_new)
    next
      case True
      show ?thesis
      proof (cases "prefix [rbrace, rbrace] after")
        case False
        have "rx pat_new s (s, s) = None"
          using rx_inner_fail [OF nb stop False, of s s] True s r by (simp add: rx_pat_new)
        with False show ?thesis using s by (simp add: match_at_def after_def)
      next
        case pre: True
        then obtain rest where after: "after = rbrace # rbrace # rest"
          by (auto simp: prefix_def)
        show ?thesis
        proof (cases "inner = []")
          case True
          have "rx pat_new s (s, s) = None"
            using rx_inner_stop [OF stop, of s s] \<open>x = lbrace \<and> y = lbrace\<close> s r True
            by (simp add: rx_pat_new)
          with True show ?thesis using s by (simp add: match_at_def inner_def)
        next
          case False
          have "match_at pat_new s = Some (capture_new inner, rest)"
            using match_at_new_token [OF False nb, of rest] \<open>x = lbrace \<and> y = lbrace\<close> s r after
            by simp
          with False pre show ?thesis
            using s \<open>x = lbrace \<and> y = lbrace\<close> after
            by (simp add: inner_def [symmetric] after_def [symmetric])
        qed
      qed
    qed
  qed
qed

section \<open>The token grammar of server-new.py\<close>

lemma findall_new_step:
  "findall pat_new s =
     (case match_at pat_new s of
        Some (name, rest) \<Rightarrow> name # findall pat_new rest
      | None \<Rightarrow> (case s of [] \<Rightarrow> [] | x # xs \<Rightarrow> findall pat_new xs))"
proof (cases s)
  case Nil
  then show ?thesis by (simp add: findall.simps match_at_new_eq)
next
  case (Cons x xs)
  show ?thesis
  proof (cases "match_at pat_new s")
    case None
    with Cons show ?thesis by (simp add: findall.simps)
  next
    case (Some a)
    obtain name rest where a: "a = (name, rest)" by (cases a)
    from Some a obtain y r where s: "s = x # y # r"
      and rest: "rest = drop 2 (dropWhile no_brace r)"
      using Cons by (auto simp: match_at_new_eq split: list.splits if_splits)
    have "length rest < length s"
      unfolding rest s using length_dropWhile_le [of no_brace r] by simp
    with Some a Cons show ?thesis by (simp add: findall.simps)
  qed
qed




section \<open>Empty names\<close>

text \<open>
  The claim as stated has discovery report the empty name for \<open>{{}}\<close> and for
  \<open>{{  }}\<close>. Neither pattern reports it for either text.
\<close>

theorem empty_name_counterexample:
  "'''' \<notin> extract_fields {} ''{{}}'' \<and> '''' \<notin> extract_fields {} ''{{  }}'' \<and>
   '''' \<notin> extract_fields_from_text {} ''{{}}'' \<and>
   '''' \<notin> extract_fields_from_text {} ''{{  }}''"
  unfolding extract_fields_def extract_fields_from_text_def
  by code_simp

text \<open>
  C7, as amended. \<open>{{}}\<close> holds no token: both patterns ask for at least one
  character between the braces, so nothing is discovered in it and \<open>replace_in_text\<close>
  returns it with count 0 for every field map. \<open>{{  }}\<close> is a token; the name
  discovered is one space with the pattern of server-new.py and two spaces with the
  pattern of server.py, and its stripped name is empty. Without an empty key
  \<open>replace_in_text\<close> returns \<open>{{  }}\<close> with count 0.
\<close>

theorem empty_name_tokens:
  "extract_fields {} ''{{}}'' = {} \<and>
   extract_fields_from_text {} ''{{}}'' = {} \<and>
   replace_in_text m ''{{}}'' = (''{{}}'', 0) \<and>
   extract_fields {} ''{{  }}'' = {'' ''} \<and>
   extract_fields_from_text {} ''{{  }}'' = {''  ''} \<and>
   strip '' '' = '''' \<and>
   (map_of m '''' = None \<longrightarrow> replace_in_text m ''{{  }}'' = (''{{  }}'', 0))"
proof -
  have a: "findall pat_new ''{{}}'' = []" by code_simp
  have b: "findall pat_new ''{{  }}'' = ['' '']" by code_simp
  have c: "findall pat_old ''{{}}'' = []" by code_simp
  have d: "findall pat_old ''{{  }}'' = [''  '']" by code_simp
  have e: "strip '' '' = ''''" by code_simp
  show ?thesis
    by (simp add: extract_fields_def extract_fields_from_text_def replace_in_text_def a b c d e)
qed

theorem empty_name_tokens_witness:
  "map_of [(''a'', ''1'')] '''' = None \<and>
   replace_in_text [(''a'', ''1'')] ''{{  }}'' = (''{{  }}'', 0)"
  using empty_name_tokens [of "[(''a'', ''1'')]"] by simp

section \<open>The loops over a document\<close>







lemma for_each_append:
  "for_each f (xs @ ys) s =
     (case for_each f xs s of
        (xs', s1) \<Rightarrow> (case for_each f ys s1 of (ys', s2) \<Rightarrow> (xs' @ ys', s2)))"
  by (induction xs arbitrary: s) (auto split: prod.splits)

lemma for_each_concat:
  "for_each f (concat xss) s = apfst concat (for_each (for_each f) xss s)"
  by (induction xss arbitrary: s) (auto simp: for_each_append split: prod.splits)

lemma for_each_flat:
  assumes "\<And>x s. apfst r (g x s) = for_each f (r x) s"
  shows "apfst (\<lambda>ys. concat (map r ys)) (for_each g xs s) = for_each f (concat (map r xs)) s"
proof (induction xs arbitrary: s)
  case Nil
  show ?case by simp
next
  case (Cons x xs)
  obtain y s1 where g: "g x s = (y, s1)" by (cases "g x s")
  obtain ys s2 where rest: "for_each g xs s1 = (ys, s2)" by (cases "for_each g xs s1")
  from assms [of x s] g have 1: "for_each f (r x) s = (r y, s1)" by simp
  from Cons.IH [of s1] rest have 2: "for_each f (concat (map r xs)) s1 = (concat (map r ys), s2)"
    by simp
  show ?case by (simp add: g rest for_each_append 1 2)
qed

lemma for_each_tables:
  "apfst table_regions (for_each (for_each (for_each (for_each f))) ts s)
     = for_each f (table_regions ts) s"
  unfolding table_regions_def
  by (simp add: for_each_concat apfst_compose comp_def)

lemma each_part_regions:
  "apfst part_regions (each_part f part s) = for_each f (part_regions part) s"
  by (cases part) (auto simp: each_part_def part_regions_def split: prod.splits)

lemma each_section_regions:
  "apfst (\<lambda>sec. part_regions (header sec) @ part_regions (footer sec)) (each_section f sec s)
     = for_each f (part_regions (header sec) @ part_regions (footer sec)) s"
proof -
  obtain h s1 where h: "each_part f (header sec) s = (h, s1)" by (cases "each_part f (header sec) s")
  obtain g s2 where g: "each_part f (footer sec) s1 = (g, s2)" by (cases "each_part f (footer sec) s1")
  from each_part_regions [of f "header sec" s] h
  have 1: "for_each f (part_regions (header sec)) s = (part_regions h, s1)" by simp
  from each_part_regions [of f "footer sec" s1] g
  have 2: "for_each f (part_regions (footer sec)) s1 = (part_regions g, s2)" by simp
  show ?thesis by (simp add: each_section_def h g for_each_append 1 2)
qed

lemma replace_loops_regions:
  "apfst enumerate_regions (replace_loops f doc s) = for_each f (enumerate_regions doc) s"
proof -
  obtain ps s1 where a: "for_each f (paragraphs doc) s = (ps, s1)"
    by (cases "for_each f (paragraphs doc) s")
  obtain ts s2 where b: "for_each (for_each (for_each (for_each f))) (tables doc) s1 = (ts, s2)"
    by (cases "for_each (for_each (for_each (for_each f))) (tables doc) s1")
  obtain ss s3 where c: "for_each (each_section f) (sections doc) s2 = (ss, s3)"
    by (cases "for_each (each_section f) (sections doc) s2")
  from for_each_tables [of f "tables doc" s1] b
  have 1: "for_each f (table_regions (tables doc)) s1 = (table_regions ts, s2)" by simp
  from for_each_flat [of "\<lambda>sec. part_regions (header sec) @ part_regions (footer sec)"
      "each_section f" f "sections doc" s2, OF each_section_regions] c
  have 2: "for_each f (concat (map (\<lambda>sec. part_regions (header sec) @ part_regions (footer sec))
      (sections doc))) s2
      = (concat (map (\<lambda>sec. part_regions (header sec) @ part_regions (footer sec)) ss), s3)"
    by simp
  show ?thesis
    by (simp add: replace_loops_def enumerate_regions_def a b c for_each_append 1 2)
qed










section \<open>Regions, rewrites and malformed spans\<close>

lemma for_each_map_sum:
  "for_each (\<lambda>p n. (g p, n + h p)) xs n = (map g xs, n + sum_list (map h xs))"
  by (induction xs arbitrary: n) (auto simp: add.assoc)

lemma replace_items_no_occurrence:
  "\<forall>k \<in> fst ` set m. \<not> sublist (token k) r \<Longrightarrow> replace_items m (r, n) = (r, n)"
  by (induction m) auto

lemma runs_loop_no_occurrence:
  "\<forall>r \<in> set p. \<forall>k \<in> fst ` set m. \<not> sublist (token k) r \<Longrightarrow> runs_loop m p n = (p, n)"
  by (induction p arbitrary: n) (auto simp: replace_items_no_occurrence)



text \<open>
  C8, as amended. \<open>replace_fields_in_document\<close> of server-new.py maps every region on
  its own: a region for which \<open>replace_in_text\<close> counts 0 stays as it is, with its
  runs, and any other region becomes one run holding the new text; the total is the
  sum of the counts. A region none of whose fields has a stripped name among the keys
  counts 0. In server.py a paragraph none of whose runs contains \<open>{{key}}\<close> for a key
  keeps its runs. The rewrite is guarded by the count, not by a comparison of the texts.
\<close>

theorem rewrite_only_on_count:
  "enumerate_regions (fst (replace_fields_in_document_new m doc))
     = map (\<lambda>p. fst (replace_paragraph m p)) (enumerate_regions doc) \<and>
   snd (replace_fields_in_document_new m doc)
     = sum_list (map (\<lambda>p. snd (replace_paragraph m p)) (enumerate_regions doc)) \<and>
   replace_paragraph m p
     = (if snd (replace_in_text m (get_text p)) = 0 then (p, 0)
        else ([fst (replace_in_text m (get_text p))], snd (replace_in_text m (get_text p)))) \<and>
   ((\<forall>f \<in> set (findall pat_new (get_text p)). map_of m (strip f) = None) \<longrightarrow>
      replace_paragraph m p = (p, 0)) \<and>
   enumerate_regions (fst (replace_fields_in_document m doc))
     = map (\<lambda>p. fst (replace_in_runs m p)) (enumerate_regions doc) \<and>
   ((\<forall>r \<in> set p. \<forall>k \<in> fst ` set m. \<not> sublist (token k) r) \<longrightarrow>
      replace_in_runs m p = (p, 0))"
proof -
  have new: "(\<lambda>p n. case replace_paragraph m p of (p', c) \<Rightarrow> (p', n + c))
      = (\<lambda>p n. (fst (replace_paragraph m p), n + snd (replace_paragraph m p)))"
    by (auto simp: fun_eq_iff split: prod.splits)
  have old: "(\<lambda>p n. case replace_in_runs m p of (p', c) \<Rightarrow> (p', n + c))
      = (\<lambda>p n. (fst (replace_in_runs m p), n + snd (replace_in_runs m p)))"
    by (auto simp: fun_eq_iff split: prod.splits)
  have 1: "apfst enumerate_regions (replace_fields_in_document_new m doc)
      = (map (\<lambda>p. fst (replace_paragraph m p)) (enumerate_regions doc),
         0 + sum_list (map (\<lambda>p. snd (replace_paragraph m p)) (enumerate_regions doc)))"
    unfolding replace_fields_in_document_new_def replace_loops_regions new
    by (rule for_each_map_sum)
  have 2: "apfst enumerate_regions (replace_fields_in_document m doc)
      = (map (\<lambda>p. fst (replace_in_runs m p)) (enumerate_regions doc),
         0 + sum_list (map (\<lambda>p. snd (replace_in_runs m p)) (enumerate_regions doc)))"
    unfolding replace_fields_in_document_def replace_loops_regions old
    by (rule for_each_map_sum)
  have 3: "replace_paragraph m p
     = (if snd (replace_in_text m (get_text p)) = 0 then (p, 0)
        else ([fst (replace_in_text m (get_text p))], snd (replace_in_text m (get_text p))))"
    by (simp add: replace_paragraph_def set_text_def split: prod.splits)
  have 4: "(\<forall>f \<in> set (findall pat_new (get_text p)). map_of m (strip f) = None) \<longrightarrow>
      replace_paragraph m p = (p, 0)"
    by (simp add: replace_paragraph_def replace_in_text_def fields_loop_no_key)
  have 5: "(\<forall>r \<in> set p. \<forall>k \<in> fst ` set m. \<not> sublist (token k) r) \<longrightarrow>
      replace_in_runs m p = (p, 0)"
    by (simp add: replace_in_runs_def runs_loop_no_occurrence)
  from 1 have a1: "enumerate_regions (fst (replace_fields_in_document_new m doc))
     = map (\<lambda>p. fst (replace_paragraph m p)) (enumerate_regions doc)"
    and b1: "snd (replace_fields_in_document_new m doc)
     = sum_list (map (\<lambda>p. snd (replace_paragraph m p)) (enumerate_regions doc))"
    by (cases "replace_fields_in_document_new m doc"; simp)+
  from 2 have a2: "enumerate_regions (fst (replace_fields_in_document m doc))
     = map (\<lambda>p. fst (replace_in_runs m p)) (enumerate_regions doc)"
    by (cases "replace_fields_in_document m doc"; simp)
  from a1 b1 a2 3 4 5 show ?thesis by blast
qed

theorem rewrite_only_on_count_witness:
  "replace_paragraph [(''a'', ''1'')] [''{{ b'', '' }} and text''] = ([''{{ b'', '' }} and text''], 0) \<and>
   replace_in_runs [(''a'', ''1'')] [''{{ b'', '' }} and text''] = ([''{{ b'', '' }} and text''], 0)"
proof -
  have 1: "\<forall>f \<in> set (findall pat_new (get_text [''{{ b'', '' }} and text''])).
      map_of [(''a'', ''1'')] (strip f) = None"
    by code_simp
  have 2: "\<forall>r \<in> set [''{{ b'', '' }} and text'']. \<forall>k \<in> fst ` set [(''a'', ''1'')].
      \<not> sublist (token k) r"
    by code_simp
  show ?thesis
    using rewrite_only_on_count [of "[(''a'', ''1'')]" _ "[''{{ b'', '' }} and text'']"] 1 2
    by blast
qed

text \<open>
  The claim as stated skips the rewrite whenever the new text equals the old. With
  a value equal to its own token the text stays the same, the count is 1, and the two
  runs of the paragraph are replaced by one.
\<close>

theorem rewrite_same_text_counterexample:
  "fst (replace_in_text [(''a'', ''{{a}}'')] (get_text [''{{a'', ''}}'']))
     = get_text [''{{a'', ''}}''] \<and>
   replace_paragraph [(''a'', ''{{a}}'')] [''{{a'', ''}}''] = ([''{{a}}''], 1)"
  by code_simp

text \<open>
  C6. In \<open>{{a{{b}}{{a}}\<close> the first \<open>{{a\<close> is an open token with a nested \<open>{{\<close>;
  discovery of server-new.py reports \<open>b\<close> and \<open>a\<close>, the latter from the last token.
  With the value \<open>}}\<close> for \<open>b\<close>, \<open>replace_in_text\<close> closes the open token by its
  first replacement and the replacement for \<open>a\<close> then rewrites it: the malformed span
  does not come through. The pattern of server.py accepts \<open>{\<close> inside a name and reports
  the name \<open>a{{b\<close> for \<open>{{a{{b}}\<close>.
\<close>

theorem nested_span_rewritten:
  "findall pat_new ''{{a{{b}}{{a}}'' = [''b'', ''a''] \<and>
   replace_in_text [(''b'', ''}}''), (''a'', ''X'')] ''{{a{{b}}{{a}}'' = (''XX'', 2) \<and>
   findall pat_old ''{{a{{b}}'' = [''a{{b'']"
  by code_simp

section \<open>Every token of the text is found\<close>

lemma strip_all_space: "\<forall>c \<in> set k. isspace c \<Longrightarrow> strip k = []"
proof -
  assume "\<forall>c \<in> set k. isspace c"
  then have e: "dropWhile isspace k = []" by simp
  show ?thesis unfolding strip_def e by simp
qed

lemma capture_new_proper:
  assumes "k \<noteq> []" and "strip k = k"
  shows "capture_new k = k"
proof -
  have "\<not> (\<forall>c \<in> set k. isspace c)" using assms strip_all_space by force
  then show ?thesis using assms(2) by (auto simp: capture_new_def)
qed

lemma findall_new_finds_token:
  assumes k: "k \<noteq> []" "\<forall>c \<in> set k. no_brace c" "strip k = k"
  shows "k \<in> set (findall pat_new (pre @ token k @ post))"
proof (induction "length pre" arbitrary: pre rule: less_induct)
  case less
  show ?case
  proof (cases pre)
    case Nil
    have "match_at pat_new (token k @ post) = Some (capture_new k, post)"
      using match_at_new_token [OF k(1,2), of post] by (simp add: token_def)
    then show ?thesis using Nil capture_new_proper [OF k(1,3)]
      by (subst findall_new_step) simp
  next
    case (Cons x pre')
    let ?r = "pre @ token k @ post"
    show ?thesis
    proof (cases "match_at pat_new ?r")
      case None
      have "k \<in> set (findall pat_new (pre' @ token k @ post))"
        using less [of pre'] Cons by simp
      then show ?thesis using None Cons by (subst findall_new_step) simp
    next
      case (Some a)
      obtain name rest where a: "a = (name, rest)" by (cases a)
      from Some a obtain y r0 where r: "?r = x # y # r0" and xy: "x = lbrace" "y = lbrace"
        and ne: "takeWhile no_brace r0 \<noteq> []"
        and pre: "prefix [rbrace, rbrace] (dropWhile no_brace r0)"
        and rest: "rest = drop 2 (dropWhile no_brace r0)"
        using Cons by (auto simp: match_at_new_eq split: list.splits if_splits)
      have "pre' \<noteq> []"
      proof
        assume "pre' = []"
        with r Cons have "r0 = lbrace # k @ [rbrace, rbrace] @ post" by (simp add: token_def)
        with ne show False by (simp add: no_brace_def)
      qed
      then obtain pre'' where p': "pre' = y # pre''" using r Cons by (cases pre') auto
      with r Cons have r0: "r0 = pre'' @ token k @ post" by simp
      have tk: "token k @ post = lbrace # (lbrace # k @ [rbrace, rbrace] @ post)"
        by (simp add: token_def)
      have ex: "\<exists>c \<in> set pre''. \<not> no_brace c"
      proof (rule ccontr)
        assume "\<not> ?thesis"
        then have "dropWhile no_brace r0 = token k @ post"
          unfolding r0 tk by (simp add: dropWhile_append2 no_brace_def)
        with pre show False by (simp add: token_def lbrace_def rbrace_def)
      qed
      then have d: "dropWhile no_brace r0 = dropWhile no_brace pre'' @ token k @ post"
        unfolding r0 by (auto simp: dropWhile_append1)
      from ex have dne: "dropWhile no_brace pre'' \<noteq> []" by auto
      then obtain d1 d' where d1: "dropWhile no_brace pre'' = d1 # d'"
        by (cases "dropWhile no_brace pre''") auto
      have "d' \<noteq> []"
      proof
        assume "d' = []"
        with pre d d1 tk show False by (simp add: lbrace_def rbrace_def)
      qed
      then obtain d2 d'' where d2: "d' = d2 # d''" by (cases d') auto
      from rest d d1 d2 have rest': "rest = d'' @ token k @ post" by simp
      have "length d'' < length pre"
        using length_dropWhile_le [of no_brace pre''] d1 d2 Cons p' by simp
      from less [OF this] have "k \<in> set (findall pat_new rest)" using rest' by simp
      then show ?thesis using Some a by (subst findall_new_step) simp
    qed
  qed
qed

lemma sublist_token_found:
  assumes "k \<noteq> []" "\<forall>c \<in> set k. no_brace c" "strip k = k" and "sublist (token k) r"
  shows "k \<in> set (findall pat_new r)"
proof -
  from assms(4) obtain pre post where "r = pre @ token k @ post" by (auto simp: sublist_def)
  then show ?thesis using findall_new_finds_token [OF assms(1-3)] by simp
qed

section \<open>No match, and equal inputs\<close>

text \<open>
  The claim as stated covers every field map. \<open>replace_in_runs\<close> of server.py
  searches the literal \<open>{{key}}\<close>: with the key \<open> b \<close>, padded with a space on each
  side, no key equals the stripped name \<open>b\<close> of the token in \<open>{{ b }}\<close>, and the run is
  rewritten all the same, with count 1.
\<close>

theorem literal_key_counterexample:
  "findall pat_new ''{{ b }}'' = [''b''] \<and>
   map_of [('' b '', ''X'')] (strip ''b'') = None \<and>
   replace_in_runs [('' b '', ''X'')] [''{{ b }}''] = ([''X''], 1)"
  by code_simp

text \<open>
  C9, as amended. A text that contains neither \<open>{{\<close> nor \<open>}}\<close> adds no name to the set of
  fields and \<open>replace_in_text\<close> returns it with count 0 for every field map; and
  whenever no field found in the text has its stripped name among the keys,
  \<open>replace_in_text\<close> returns the text with count 0. For server.py, a paragraph whose
  runs contain neither \<open>{{\<close> nor \<open>}}\<close> comes back from \<open>replace_in_runs\<close> with
  the same runs and count 0; so does a paragraph none of whose runs holds a token with
  its stripped name among the keys, when the keys are names as the grammar yields them
  (not empty, without braces, without whitespace at either end).
\<close>

theorem substitute_no_match:
  "(\<not> sublist ''{{'' t \<and> \<not> sublist ''}}'' t \<longrightarrow>
      extract_fields seen t = seen \<and> replace_in_text m t = (t, 0)) \<and>
   ((\<forall>f \<in> set (findall pat_new t). map_of m (strip f) = None) \<longrightarrow>
      replace_in_text m t = (t, 0)) \<and>
   ((\<forall>r \<in> set p. \<not> sublist ''{{'' r \<and> \<not> sublist ''}}'' r) \<longrightarrow>
      replace_in_runs m p = (p, 0)) \<and>
   ((\<forall>k \<in> fst ` set m. k \<noteq> [] \<and> strip k = k \<and>
        (\<forall>c \<in> set k. c \<noteq> CHR ''{'' \<and> c \<noteq> CHR ''}'')) \<and>
     (\<forall>r \<in> set p. \<forall>f \<in> set (findall pat_new r). map_of m (strip f) = None) \<longrightarrow>
      replace_in_runs m p = (p, 0))"
proof -
  have "replace_in_runs m p = (p, 0)"
    if keys: "\<forall>k \<in> fst ` set m. k \<noteq> [] \<and> strip k = k \<and>
        (\<forall>c \<in> set k. c \<noteq> CHR ''{'' \<and> c \<noteq> CHR ''}'')"
      and none: "\<forall>r \<in> set p. \<forall>f \<in> set (findall pat_new r). map_of m (strip f) = None"
  proof -
    have "\<not> sublist (token k) r" if r: "r \<in> set p" and k: "k \<in> fst ` set m" for r k
    proof
      assume occ: "sublist (token k) r"
      from keys k have "k \<noteq> []" and st: "strip k = k" and "\<forall>c \<in> set k. no_brace c"
        by (auto simp: no_brace_def lbrace_def rbrace_def)
      with occ have "k \<in> set (findall pat_new r)" by (simp add: sublist_token_found)
      with none r st have "map_of m k = None" by force
      with k show False by (simp add: map_of_eq_None_iff)
    qed
    then show ?thesis by (simp add: replace_in_runs_def runs_loop_no_occurrence)
  qed
  then show ?thesis
    by (simp add: extract_fields_def replace_in_text_def findall_new_no_open fields_loop_no_key
        replace_in_runs_def runs_loop_no_open)
qed

theorem substitute_no_match_witness:
  "replace_in_text [(''a'', ''1'')] ''plain text'' = (''plain text'', 0) \<and>
   replace_in_text [(''a'', ''1'')] ''{{ b }}'' = (''{{ b }}'', 0) \<and>
   replace_in_runs [(''a'', ''1'')] [''plain'', '' text''] = ([''plain'', '' text''], 0) \<and>
   replace_in_runs [(''a'', ''1'')] [''{{ b }}'', ''{{c}}''] = ([''{{ b }}'', ''{{c}}''], 0)"
proof -
  have 4: "\<forall>k \<in> fst ` set [(''a'', ''1'')]. k \<noteq> [] \<and> strip k = k \<and>
        (\<forall>c \<in> set k. c \<noteq> CHR ''{'' \<and> c \<noteq> CHR ''}'')"
    by code_simp
  have 5: "\<forall>r \<in> set [''{{ b }}'', ''{{c}}'']. \<forall>f \<in> set (findall pat_new r).
        map_of [(''a'', ''1'')] (strip f) = None"
    by code_simp
  have 6: "replace_in_runs [(''a'', ''1'')] [''{{ b }}'', ''{{c}}''] = ([''{{ b }}'', ''{{c}}''], 0)"
    using substitute_no_match [of "[]" "{}" "[(''a'', ''1'')]" "[''{{ b }}'', ''{{c}}'']"] 4 5
    by blast
  have 1: "\<not> sublist ''{{'' ''plain text'' \<and> \<not> sublist ''}}'' ''plain text''"
    by code_simp
  have 2: "\<forall>f \<in> set (findall pat_new ''{{ b }}''). map_of [(''a'', ''1'')] (strip f) = None"
    by code_simp
  have 3: "\<forall>r \<in> set [''plain'', '' text'']. \<not> sublist ''{{'' r \<and> \<not> sublist ''}}'' r"
    by code_simp
  show ?thesis
    using substitute_no_match [of "''plain text''" "{}" "[(''a'', ''1'')]" "[''plain'', '' text'']"]
      substitute_no_match [of "''{{ b }}''" "{}" "[(''a'', ''1'')]" "[]"] 1 2 3 6
    by blast
qed

text \<open>
  The result of \<open>replace_in_text\<close> of server-new.py depends on the field map only
  through what it maps each key to, not on the order of its entries.
\<close>

lemma replace_in_text_order_independent:
  "map_of m1 = map_of m2 \<Longrightarrow> replace_in_text m1 t = replace_in_text m2 t"
  using fields_loop_map_of [of m1 m2] by (simp add: replace_in_text_def)

text \<open>
  C10. Two field maps that hold the same values for the same keys, entered in a
  different order, are equal inputs. \<open>replace_in_runs\<close> of server.py and
  \<open>_replace_in_paragraph_or_cell\<close> of server-gemini.py iterate over the entries in
  insertion order and rewrite the text produced so far, so on the one run \<open>{{a}}\<close>
  they return \<open>X\<close> with count 2 for one order and \<open>{{b}}\<close> with count 1 for the
  other: equal inputs, different results.
\<close>

theorem replace_in_runs_order_dependent:
  "map_of [(''a'', ''{{b}}''), (''b'', ''X'')] = map_of [(''b'', ''X''), (''a'', ''{{b}}'')] \<and>
   replace_in_runs [(''a'', ''{{b}}''), (''b'', ''X'')] [''{{a}}''] = ([''X''], 2) \<and>
   replace_in_runs [(''b'', ''X''), (''a'', ''{{b}}'')] [''{{a}}''] = ([''{{b}}''], 1) \<and>
   replace_in_paragraph_or_cell [(''a'', ''{{b}}''), (''b'', ''X'')] [''{{a}}''] 0
     = Some ([''X''], 2) \<and>
   replace_in_paragraph_or_cell [(''b'', ''X''), (''a'', ''{{b}}'')] [''{{a}}''] 0
     = Some ([''{{b}}''], 1)"
proof -
  have "map_of [(''a'', ''{{b}}''), (''b'', ''X'')] = map_of [(''b'', ''X''), (''a'', ''{{b}}'')]"
    by (rule ext) simp
  moreover have "replace_in_runs [(''a'', ''{{b}}''), (''b'', ''X'')] [''{{a}}''] = ([''X''], 2)"
    by code_simp
  moreover have "replace_in_runs [(''b'', ''X''), (''a'', ''{{b}}'')] [''{{a}}''] = ([''{{b}}''], 1)"
    by code_simp
  moreover have "replace_in_paragraph_or_cell [(''a'', ''{{b}}''), (''b'', ''X'')] [''{{a}}''] 0
     = Some ([''X''], 2)"
    by code_simp
  moreover have "replace_in_paragraph_or_cell [(''b'', ''X''), (''a'', ''{{b}}'')] [''{{a}}''] 0
     = Some ([''{{b}}''], 1)"
    by code_simp
  ultimately show ?thesis by blast
qed

section \<open>Openings without a closing\<close>

lemma braces_differ: "lbrace \<noteq> rbrace" "rbrace \<noteq> lbrace" "\<not> no_brace lbrace" "\<not> no_brace rbrace"
  by (simp_all add: lbrace_def rbrace_def no_brace_def)

lemma match_at_new_append:
  assumes tail: "prefix [lbrace, lbrace] tail" and p: "p \<noteq> []"
  shows "match_at pat_new (p @ tail) = map_option (\<lambda>(n, r). (n, r @ tail)) (match_at pat_new p)"
proof -
  from tail obtain t where t: "tail = lbrace # lbrace # t" by (auto simp: prefix_def)
  from p obtain x p' where px: "p = x # p'" by (cases p) auto
  show ?thesis
  proof (cases p')
    case Nil
    with px t show ?thesis by (simp add: match_at_new_eq no_brace_def)
  next
    case (Cons y r0)
    show ?thesis
    proof (cases "\<forall>c \<in> set r0. no_brace c")
      case True
      then have tw: "takeWhile no_brace (r0 @ lbrace # lbrace # t) = r0"
        and dw: "dropWhile no_brace (r0 @ lbrace # lbrace # t) = lbrace # lbrace # t"
        and tw0: "takeWhile no_brace r0 = r0" and dw0: "dropWhile no_brace r0 = []"
        by (simp_all add: takeWhile_append2 dropWhile_append2 braces_differ)
      show ?thesis unfolding px Cons t
        by (simp add: match_at_new_eq tw dw tw0 dw0 braces_differ)
    next
      case False
      then have tw: "takeWhile no_brace (r0 @ tail) = takeWhile no_brace r0"
        and dw: "dropWhile no_brace (r0 @ tail) = dropWhile no_brace r0 @ tail"
        by (auto simp: takeWhile_append1 dropWhile_append1)
      from False have "dropWhile no_brace r0 \<noteq> []" by auto
      then obtain c d where d: "dropWhile no_brace r0 = c # d"
        by (cases "dropWhile no_brace r0") auto
      show ?thesis
      proof (cases d)
        case Nil
        have nt: "\<not> prefix [rbrace] tail"
          unfolding t by (simp add: braces_differ)
        show ?thesis unfolding px Cons
          by (simp add: match_at_new_eq tw dw d Nil nt)
      next
        case (Cons c2 d2)
        show ?thesis unfolding px \<open>p' = y # r0\<close>
          by (simp add: match_at_new_eq tw dw d Cons)
      qed
    qed
  qed
qed

lemma findall_new_Nil: "findall pat_new [] = []"
  by (subst findall_new_step) (simp add: match_at_new_eq)

lemma match_at_new_shorter:
  "match_at pat_new s = Some (n, rest) \<Longrightarrow> length rest < length s"
proof -
  assume "match_at pat_new s = Some (n, rest)"
  then obtain x y r where "s = x # y # r" and "rest = drop 2 (dropWhile no_brace r)"
    by (auto simp: match_at_new_eq split: list.splits if_splits)
  then show ?thesis using length_dropWhile_le [of no_brace r] by simp
qed

lemma findall_new_append:
  assumes tail: "prefix [lbrace, lbrace] tail"
  shows "findall pat_new (p @ tail) = findall pat_new p @ findall pat_new tail"
proof (induction "length p" arbitrary: p rule: less_induct)
  case less
  show ?case
  proof (cases p)
    case Nil
    then show ?thesis by (simp add: findall_new_Nil)
  next
    case (Cons x p')
    then have ne: "p \<noteq> []" by simp
    note m = match_at_new_append [OF tail ne]
    show ?thesis
    proof (cases "match_at pat_new p")
      case None
      with m have "match_at pat_new (p @ tail) = None" by simp
      then have "findall pat_new (p @ tail) = findall pat_new (p' @ tail)"
        using Cons by (subst findall_new_step) simp
      also have "\<dots> = findall pat_new p' @ findall pat_new tail"
        using less [of p'] Cons by simp
      finally have 1: "findall pat_new (p @ tail)
          = findall pat_new p' @ findall pat_new tail" .
      have "findall pat_new p = findall pat_new p'"
        using None Cons by (subst findall_new_step) simp
      with 1 show ?thesis by simp
    next
      case (Some a)
      obtain n rest where a: "a = (n, rest)" by (cases a)
      with Some m have "match_at pat_new (p @ tail) = Some (n, rest @ tail)" by simp
      then have "findall pat_new (p @ tail) = n # findall pat_new (rest @ tail)"
        by (subst findall_new_step) simp
      also have "\<dots> = n # findall pat_new rest @ findall pat_new tail"
        using less [of rest] match_at_new_shorter Some a by simp
      finally have 1: "findall pat_new (p @ tail)
          = n # findall pat_new rest @ findall pat_new tail" .
      have "findall pat_new p = n # findall pat_new rest"
        using Some a by (subst findall_new_step) simp
      with 1 show ?thesis by simp
    qed
  qed
qed

lemma match_at_new_has_close:
  "match_at pat_new s = Some a \<Longrightarrow> sublist [rbrace, rbrace] s"
proof -
  assume "match_at pat_new s = Some a"
  then obtain x y r where s: "s = x # y # r"
    and pre: "prefix [rbrace, rbrace] (dropWhile no_brace r)"
    by (auto simp: match_at_new_eq split: list.splits if_splits)
  from pre obtain rest where "dropWhile no_brace r = [rbrace, rbrace] @ rest"
    by (auto simp: prefix_def)
  then have "r = takeWhile no_brace r @ [rbrace, rbrace] @ rest"
    by (metis takeWhile_dropWhile_id)
  then have "s = (x # y # takeWhile no_brace r) @ [rbrace, rbrace] @ rest"
    using s by simp
  then show ?thesis unfolding sublist_def by blast
qed

lemma findall_new_no_close:
  "\<not> sublist [rbrace, rbrace] t \<Longrightarrow> findall pat_new t = []"
proof (induction t)
  case Nil
  show ?case by (rule findall_new_Nil)
next
  case (Cons x xs)
  then have "match_at pat_new (x # xs) = None"
    using match_at_new_has_close [of "x # xs"] by (cases "match_at pat_new (x # xs)") auto
  moreover have "\<not> sublist [rbrace, rbrace] xs"
    using Cons.prems by (auto simp: sublist_Cons_right)
  ultimately show ?case using Cons.IH by (subst findall_new_step) simp
qed

lemma set_strip: "set (strip s) \<subseteq> set s"
proof
  fix x
  assume "x \<in> set (strip s)"
  then have "x \<in> set (dropWhile isspace (rev (dropWhile isspace s)))"
    by (simp add: strip_def)
  then have "x \<in> set (rev (dropWhile isspace s))" by (rule set_dropWhileD)
  then have "x \<in> set (dropWhile isspace s)" by simp
  then show "x \<in> set s" by (rule set_dropWhileD)
qed

lemma set_capture_new: "inner \<noteq> [] \<Longrightarrow> set (capture_new inner) \<subseteq> set inner"
  using set_strip [of inner] by (auto simp: capture_new_def)

lemma findall_new_no_brace:
  "f \<in> set (findall pat_new t) \<Longrightarrow> \<forall>c \<in> set f. no_brace c"
proof (induction "length t" arbitrary: t rule: less_induct)
  case less
  show ?case
  proof (cases "match_at pat_new t")
    case None
    show ?thesis
    proof (cases t)
      case Nil
      with less.prems show ?thesis by (simp add: findall_new_Nil)
    next
      case (Cons x xs)
      with None less.prems have "f \<in> set (findall pat_new xs)"
        by (subst (asm) findall_new_step) simp
      then show ?thesis using less.hyps [of xs] Cons by simp
    qed
  next
    case (Some a)
    obtain n rest where a: "a = (n, rest)" by (cases a)
    from Some a obtain x y r where "t = x # y # r" and ne: "takeWhile no_brace r \<noteq> []"
      and n: "n = capture_new (takeWhile no_brace r)"
      by (auto simp: match_at_new_eq split: list.splits if_splits)
    have nb: "\<forall>c \<in> set n. no_brace c"
      using set_capture_new [OF ne] n by (auto dest: set_takeWhileD)
    from Some a less.prems have "f = n \<or> f \<in> set (findall pat_new rest)"
      by (subst (asm) findall_new_step) auto
    then show ?thesis using nb less.hyps [of rest] match_at_new_shorter Some a by blast
  qed
qed

lemma prefix_no_lbrace_append:
  assumes "lbrace \<notin> set h" and "h \<noteq> []"
  shows "prefix h (r @ lbrace # t) \<longleftrightarrow> prefix h r"
  using assms
proof (induction r arbitrary: h)
  case Nil
  then show ?case by (cases h) auto
next
  case (Cons c r)
  from Cons.prems obtain y h' where h: "h = y # h'" by (cases h) auto
  show ?case
  proof (cases "h' = []")
    case True
    with h show ?thesis by simp
  next
    case False
    with Cons.prems h have "prefix h' (r @ lbrace # t) \<longleftrightarrow> prefix h' r"
      by (intro Cons.IH) auto
    with h show ?thesis by simp
  qed
qed

lemma prefix_token_append:
  assumes g: "\<forall>c \<in> set g. no_brace c" and a: "a \<noteq> []"
  shows "prefix (token g) (a @ lbrace # lbrace # t) \<longleftrightarrow> prefix (token g) a"
proof -
  have h: "lbrace \<notin> set (g @ [rbrace, rbrace])" "g @ [rbrace, rbrace] \<noteq> []"
    using g by (auto simp: no_brace_def braces_differ)
  from a obtain x a' where ax: "a = x # a'" by (cases a) auto
  show ?thesis
  proof (cases a')
    case Nil
    have "\<not> prefix (g @ [rbrace, rbrace]) (lbrace # t)"
      using prefix_no_lbrace_append [OF h, of "[]" t] by simp
    then show ?thesis using ax Nil by (simp add: token_def)
  next
    case (Cons y r)
    have "prefix (g @ [rbrace, rbrace]) (r @ lbrace # (lbrace # t))
        \<longleftrightarrow> prefix (g @ [rbrace, rbrace]) r"
      by (rule prefix_no_lbrace_append [OF h])
    then show ?thesis using ax Cons by (simp add: token_def)
  qed
qed

lemma replace_str_prefix:
  "old \<noteq> [] \<Longrightarrow> replace_str old v (old @ s) = v @ replace_str old v s"
  by (cases old) auto

lemma replace_str_append:
  assumes g: "\<forall>c \<in> set g. no_brace c" and tail: "prefix [lbrace, lbrace] tail"
  shows "replace_str (token g) v (a @ tail)
           = replace_str (token g) v a @ replace_str (token g) v tail"
proof (induction "length a" arbitrary: a rule: less_induct)
  case less
  from tail obtain t where t: "tail = lbrace # lbrace # t" by (auto simp: prefix_def)
  have ne: "token g \<noteq> []" by (simp add: token_def)
  show ?case
  proof (cases a)
    case Nil
    then show ?thesis using ne by simp
  next
    case (Cons c cs)
    then have a: "a \<noteq> []" by simp
    note pre = prefix_token_append [OF g a, of t, folded t]
    show ?thesis
    proof (cases "prefix (token g) a")
      case True
      then obtain a' where a': "a = token g @ a'" by (auto simp: prefix_def)
      have "length a' < length a" using a' ne by simp
      from less [OF this] show ?thesis
        using a' replace_str_prefix [OF ne] by simp
    next
      case False
      with pre have "\<not> prefix (token g) (a @ tail)" by simp
      with False Cons ne less [of cs] show ?thesis by simp
    qed
  qed
qed

lemma replace_str_absent:
  "old \<noteq> [] \<Longrightarrow> \<not> sublist old s \<Longrightarrow> replace_str old v s = s"
  by (induction s) (auto simp: sublist_Cons_right)

lemma token_has_close: "sublist [rbrace, rbrace] (token g)"
  unfolding token_def sublist_def
  by (rule exI [of _ "lbrace # lbrace # g"], rule exI [of _ "[]"]) simp

lemma replace_str_unterminated:
  assumes "\<not> sublist [rbrace, rbrace] tail"
  shows "replace_str (token g) v tail = tail"
proof -
  have "\<not> sublist (token g) tail"
    using assms token_has_close [of g] sublist_order.order_trans by blast
  then show ?thesis by (simp add: replace_str_absent token_def)
qed

lemma original_pattern_token:
  assumes "\<forall>c \<in> set f. no_brace c"
  shows "\<exists>g. original_pattern f = token g \<and> (\<forall>c \<in> set g. no_brace c)"
proof (cases "CHR '' '' \<in> set f")
  case True
  have sp: "no_brace CHR '' ''" by (simp add: no_brace_def lbrace_def rbrace_def)
  have "original_pattern f = token ('' '' @ f @ '' '')"
    using True by (simp add: original_pattern_def)
  moreover have "\<forall>c \<in> set ('' '' @ f @ '' ''). no_brace c" using assms sp by simp
  ultimately show ?thesis by blast
next
  case False
  then have "original_pattern f = token f" by (simp add: original_pattern_def)
  with assms show ?thesis by blast
qed

lemma fields_loop_unterminated:
  assumes fs: "\<forall>f \<in> set fs. \<forall>c \<in> set f. no_brace c"
    and tail: "prefix [lbrace, lbrace] tail" "\<not> sublist [rbrace, rbrace] tail"
  shows "fields_loop m fs (a @ tail, n)
           = (fst (fields_loop m fs (a, n)) @ tail, snd (fields_loop m fs (a, n)))"
  using fs
proof (induction fs arbitrary: a n)
  case Nil
  show ?case by simp
next
  case (Cons f fs)
  then obtain g where g: "original_pattern f = token g" "\<forall>c \<in> set g. no_brace c"
    using original_pattern_token [of f] by auto
  have "replace_str (original_pattern f) v (a @ tail)
      = replace_str (original_pattern f) v a @ tail" for v
    unfolding g(1)
    by (simp add: replace_str_append [OF g(2) tail(1)] replace_str_unterminated [OF tail(2)])
  with Cons show ?case by (simp split: option.splits)
qed

text \<open>
  In server-new.py an opening \<open>{{\<close> that no \<open>}}\<close> follows passes through: the
  names found are those of the text before it, and \<open>replace_in_text\<close> returns the
  rewritten text before it followed by the unterminated part as it was, for every field
  map.
\<close>

lemma unterminated_passthrough:
  assumes "prefix ''{{'' tail" and "\<not> sublist ''}}'' tail"
  shows "findall pat_new (p @ tail) = findall pat_new p"
    and "replace_in_text m (p @ tail)
           = (fst (replace_in_text m p) @ tail, snd (replace_in_text m p))"
proof -
  from assms have tail: "prefix [lbrace, lbrace] tail" "\<not> sublist [rbrace, rbrace] tail"
    by (simp_all add: lbrace_def rbrace_def)
  show 1: "findall pat_new (p @ tail) = findall pat_new p"
    by (simp add: findall_new_append [OF tail(1)] findall_new_no_close [OF tail(2)])
  have "\<forall>f \<in> set (findall pat_new p). \<forall>c \<in> set f. no_brace c"
    using findall_new_no_brace by blast
  from fields_loop_unterminated [OF this tail]
  show "replace_in_text m (p @ tail)
           = (fst (replace_in_text m p) @ tail, snd (replace_in_text m p))"
    by (simp add: replace_in_text_def 1)
qed

text \<open>
  An open token followed by a nested \<open>{{\<close> gives no name to the discovery of
  server-new.py: the names are those before it and those from the nested \<open>{{\<close> on.
\<close>

lemma nested_open_invisible:
  assumes "\<forall>c \<in> set x. c \<noteq> CHR ''{'' \<and> c \<noteq> CHR ''}''"
  shows "findall pat_new (p @ ''{{'' @ x @ ''{{'' @ rest)
           = findall pat_new p @ findall pat_new (''{{'' @ rest)"
proof -
  have a: "prefix [lbrace, lbrace] (''{{'' @ x @ ''{{'' @ rest)"
    and b: "prefix [lbrace, lbrace] (''{{'' @ rest)"
    by (simp_all add: lbrace_def)
  have "rbrace \<notin> set (''{{'' @ x)" using assms by (auto simp: rbrace_def)
  then have "\<not> sublist [rbrace, rbrace] (''{{'' @ x)"
    using set_mono_sublist [of "[rbrace, rbrace]" "''{{'' @ x"] by auto
  then have c: "findall pat_new (''{{'' @ x) = []" by (rule findall_new_no_close)
  have "findall pat_new (p @ ''{{'' @ x @ ''{{'' @ rest)
      = findall pat_new p @ findall pat_new ((''{{'' @ x) @ ''{{'' @ rest)"
    using findall_new_append [OF a, of p] by simp
  also have "findall pat_new ((''{{'' @ x) @ ''{{'' @ rest)
      = findall pat_new (''{{'' @ x) @ findall pat_new (''{{'' @ rest)"
    by (rule findall_new_append [OF b])
  finally show ?thesis using c by simp
qed

end
